theory Spec2Isabelle
  imports Main "HOL-Library.Sublist"
begin

section \<open>VSI peer map: filtering and graph synthesis (src/pages/map/page.tsx)\<close>

text \<open>
  The page \<^verbatim>\<open>VsiVisualization\<close> keeps the fetched records and two filter strings and,
  in one effect, filters the records and builds the nodes and edges handed to the
  graph view. This theory embeds the computation of that effect: the filter callback
  (lines 87-91) and the two nested \<^verbatim>\<open>forEach\<close> loops (lines 102-118).
\<close>

subsection \<open>JavaScript values and strings\<close>

text \<open>
  The records come from a JSON response, so a field declared in the interface may be
  absent (\<^verbatim>\<open>undefined\<close>) or \<^verbatim>\<open>null\<close> when the code reads it. The code itself
  reads some of them defensively (\<^verbatim>\<open>vsi.peers?.length\<close>, \<^verbatim>\<open>peer.pwState?.toLowerCase()\<close>).
\<close>

datatype 'a js = Undefined | Null | Val 'a

datatype error = TypeError

text \<open>
  Strings are HOL strings. \<^verbatim>\<open>toLowerCase\<close> is modelled on the ASCII letters: the
  codes 65..90 move to 97..122 and every other character stays.
\<close>

definition lower_char :: "char \<Rightarrow> char" where
  "lower_char c =
     (let n = (of_char c :: nat) in if 65 \<le> n \<and> n \<le> 90 then char_of (n + 32) else c)"

definition toLowerCase :: "string \<Rightarrow> string" where
  "toLowerCase s = map lower_char s"

text \<open>\<^verbatim>\<open>s.startsWith(t)\<close> and \<^verbatim>\<open>s.includes(t)\<close>: \<open>t\<close> occurs in \<open>s\<close> at some position.\<close>

fun startsWith :: "string \<Rightarrow> string \<Rightarrow> bool" where
  "startsWith s [] = True"
| "startsWith [] (c # cs) = False"
| "startsWith (x # xs) (c # cs) = (x = c \<and> startsWith xs cs)"

fun includes_str :: "string \<Rightarrow> string \<Rightarrow> bool" where
  "includes_str [] t = (t = [])"
| "includes_str (x # xs) t = (startsWith (x # xs) t \<or> includes_str xs t)"

text \<open>
  \<^verbatim>\<open>s.replace(c, r)\<close> with a one-character string pattern: only the first
  occurrence of the character is replaced, wherever it stands.
\<close>

fun replace :: "string \<Rightarrow> char \<Rightarrow> string \<Rightarrow> string" where
  "replace [] c r = []"
| "replace (x # xs) c r = (if x = c then r @ xs else x # replace xs c r)"

text \<open>
  A number inside a template literal: the decimal digits, with a minus sign for a
  negative value (the ids are database keys, integers far below \<open>10^21\<close>).
\<close>

function digits :: "nat \<Rightarrow> string" where
  "digits n =
     (if n < 10 then [''0123456789'' ! n]
      else digits (n div 10) @ [''0123456789'' ! (n mod 10)])"
  by pat_completeness auto
termination
  by (relation "measure (\<lambda>n. n)") auto

declare digits.simps [simp del]

definition number_toString :: "int \<Rightarrow> string" where
  "number_toString n = (if n < 0 then ''-'' @ digits (nat (- n)) else digits (nat n))"

text \<open>A value inside a template literal, \<^verbatim>\<open>`${v}`\<close>.\<close>

fun template :: "string js \<Rightarrow> string" where
  "template Undefined = ''undefined''"
| "template Null = ''null''"
| "template (Val s) = s"

subsection \<open>The records (src/interfaces/network.ts) and the graph elements\<close>

text \<open>The fields of \<^verbatim>\<open>VsiPeerInfo\<close> and \<^verbatim>\<open>Vsi\<close> that the page reads.\<close>

record VsiPeerInfo =
  peer_id :: int
  peerAddress :: "string js"
  pwId :: "int js"
  pwState :: "string js"
  peerDeviceName :: "string js"

record Vsi =
  vsi_id :: int
  vsi_name :: "string js"
  vsi_state :: "string js"
  vsi_type :: "string js"
  mtu :: "int js"
  peers :: "VsiPeerInfo list js"

datatype node_type = vsiNode | peerNode

datatype node_data = VsiData Vsi | PeerData (ip: "string js") (name: "string js")

record GraphNode =
  node_id :: string
  ntype :: node_type
  position :: "int \<times> int"
  ndata :: node_data

record GraphEdge =
  edge_id :: string
  source :: string
  target :: string
  stroke :: string
  strokeWidth :: int
  animated :: bool
  markerColor :: string
  data_pwState :: "string js"
  data_pwId :: "int js"

subsection \<open>The filter (lines 87-91)\<close>

text \<open>
  A filter string is a React state string; the empty string is falsy. Calling
  \<^verbatim>\<open>toLowerCase\<close> on a name or state that is not a string raises a TypeError, which
  leaves the whole effect.
\<close>

definition nameMatch :: "string \<Rightarrow> Vsi \<Rightarrow> error + bool" where
  "nameMatch filterName vsi =
     (if filterName \<noteq> [] then
        (case vsi_name vsi of
           Val s \<Rightarrow> Inr (includes_str (toLowerCase s) (toLowerCase filterName))
         | _ \<Rightarrow> Inl TypeError)
      else Inr True)"

definition stateMatch :: "string \<Rightarrow> Vsi \<Rightarrow> error + bool" where
  "stateMatch filterState vsi =
     (if filterState \<noteq> [] then
        (case vsi_state vsi of
           Val s \<Rightarrow> Inr (replace (toLowerCase s) CHR ''*'' [] = toLowerCase filterState)
         | _ \<Rightarrow> Inl TypeError)
      else Inr True)"

text \<open>The callback computes both constants, then returns their conjunction.\<close>

definition vsiMatch :: "string \<Rightarrow> string \<Rightarrow> Vsi \<Rightarrow> error + bool" where
  "vsiMatch filterName filterState vsi =
     (case nameMatch filterName vsi of
        Inl e \<Rightarrow> Inl e
      | Inr nm \<Rightarrow>
          (case stateMatch filterState vsi of
             Inl e \<Rightarrow> Inl e
           | Inr sm \<Rightarrow> Inr (nm \<and> sm)))"

fun filteredVsis :: "string \<Rightarrow> string \<Rightarrow> Vsi list \<Rightarrow> error + Vsi list" where
  "filteredVsis filterName filterState [] = Inr []"
| "filteredVsis filterName filterState (vsi # rest) =
     (case vsiMatch filterName filterState vsi of
        Inl e \<Rightarrow> Inl e
      | Inr keep \<Rightarrow>
          (case filteredVsis filterName filterState rest of
             Inl e \<Rightarrow> Inl e
           | Inr kept \<Rightarrow> Inr (if keep then vsi # kept else kept)))"

subsection \<open>Graph synthesis (lines 80-84 and 102-118)\<close>

text \<open>The variables that the loops update: the two arrays, the map and \<^verbatim>\<open>peerXPos\<close>.\<close>

record synth =
  newNodes :: "GraphNode list"
  newEdges :: "GraphEdge list"
  peerNodeMap :: "string js \<rightharpoonup> GraphNode"
  peerXPos :: int

definition vsiYPos :: int where "vsiYPos = 100"
definition peerYPos :: int where "peerYPos = 400"

definition init_synth :: synth where
  "init_synth = \<lparr>newNodes = [], newEdges = [], peerNodeMap = Map.empty, peerXPos = 100\<rparr>"

definition vsiNodeId :: "Vsi \<Rightarrow> string" where
  "vsiNodeId vsi = ''vsi-'' @ number_toString (vsi_id vsi)"

definition peerNodeId :: "string js \<Rightarrow> string" where
  "peerNodeId peerIp = ''peer-'' @ template peerIp"

definition edgeId :: "Vsi \<Rightarrow> VsiPeerInfo \<Rightarrow> string" where
  "edgeId vsi peer =
     ''edge-'' @ number_toString (vsi_id vsi) @ ''-'' @ number_toString (peer_id peer)"

text \<open>\<^verbatim>\<open>peer.pwState?.toLowerCase() === 'up'\<close>: a missing state compares unequal.\<close>

definition isPeerUp :: "VsiPeerInfo \<Rightarrow> bool" where
  "isPeerUp peer = (case pwState peer of Val s \<Rightarrow> toLowerCase s = ''up'' | _ \<Rightarrow> False)"

definition mkVsiNode :: "nat \<Rightarrow> Vsi \<Rightarrow> GraphNode" where
  "mkVsiNode vsiIndex vsi =
     \<lparr>node_id = vsiNodeId vsi, ntype = vsiNode,
      position = (150 + int vsiIndex * 250, vsiYPos), ndata = VsiData vsi\<rparr>"

definition mkPeerNode :: "int \<Rightarrow> VsiPeerInfo \<Rightarrow> GraphNode" where
  "mkPeerNode x peer =
     \<lparr>node_id = peerNodeId (peerAddress peer), ntype = peerNode,
      position = (x, peerYPos), ndata = PeerData (peerAddress peer) (peerDeviceName peer)\<rparr>"

definition mkEdge :: "Vsi \<Rightarrow> VsiPeerInfo \<Rightarrow> GraphEdge" where
  "mkEdge vsi peer =
     \<lparr>edge_id = edgeId vsi peer, source = vsiNodeId vsi,
      target = peerNodeId (peerAddress peer),
      stroke = (if isPeerUp peer then ''#2ecc71'' else ''#e74c3c''),
      strokeWidth = 2, animated = isPeerUp peer,
      markerColor = (if isPeerUp peer then ''#2ecc71'' else ''#e74c3c''),
      data_pwState = pwState peer, data_pwId = pwId peer\<rparr>"

text \<open>
  The body of the inner \<^verbatim>\<open>forEach\<close> (lines 108-115). A stored node is an object and
  so truthy: \<^verbatim>\<open>!peerNode\<close> holds exactly when the map has no entry for the address.
\<close>

definition peerStep :: "Vsi \<Rightarrow> synth \<Rightarrow> VsiPeerInfo \<Rightarrow> synth" where
  "peerStep vsi st peer =
     (let st1 =
        (case peerNodeMap st (peerAddress peer) of
           None \<Rightarrow>
             st\<lparr>newNodes := newNodes st @ [mkPeerNode (peerXPos st) peer],
                peerNodeMap := (peerNodeMap st)(peerAddress peer \<mapsto> mkPeerNode (peerXPos st) peer),
                peerXPos := peerXPos st + 200\<rparr>
         | Some n \<Rightarrow> st)
      in st1\<lparr>newEdges := newEdges st1 @ [mkEdge vsi peer]\<rparr>)"

text \<open>\<^verbatim>\<open>vsi.peers?.length\<close> is falsy for a missing and for an empty array.\<close>

fun peersOf :: "Vsi \<Rightarrow> VsiPeerInfo list" where
  "peersOf vsi = (case peers vsi of Val ps \<Rightarrow> ps | _ \<Rightarrow> [])"

text \<open>The body of the outer \<^verbatim>\<open>forEach\<close> (lines 103-117).\<close>

definition vsiStep :: "nat \<Rightarrow> synth \<Rightarrow> Vsi \<Rightarrow> synth" where
  "vsiStep vsiIndex st vsi =
     foldl (peerStep vsi) (st\<lparr>newNodes := newNodes st @ [mkVsiNode vsiIndex vsi]\<rparr>) (peersOf vsi)"

fun vsiLoop :: "nat \<Rightarrow> synth \<Rightarrow> Vsi list \<Rightarrow> synth" where
  "vsiLoop vsiIndex st [] = st"
| "vsiLoop vsiIndex st (vsi # rest) = vsiLoop (Suc vsiIndex) (vsiStep vsiIndex st vsi) rest"

definition synthesize :: "Vsi list \<Rightarrow> GraphNode list \<times> GraphEdge list" where
  "synthesize vsisToRender =
     (let st = vsiLoop 0 init_synth vsisToRender in (newNodes st, newEdges st))"

subsection \<open>The effect (lines 78-124)\<close>

text \<open>
  The effect filters the records and synthesizes the graph from the result; a TypeError
  in the filter leaves it before anything is published.
\<close>

definition pipeline :: "Vsi list \<Rightarrow> string \<Rightarrow> string \<Rightarrow> error + (GraphNode list \<times> GraphEdge list)" where
  "pipeline records fName fState =
     (case filteredVsis fName fState records of
        Inl e \<Rightarrow> Inl e
      | Inr vsisToRender \<Rightarrow> Inr (synthesize vsisToRender))"

subsection \<open>Vocabulary for the statements\<close>

text \<open>
  The links of a record list in iteration order, the links that are the first to carry
  their address (given the addresses already seen), the peer nodes laid out from a
  starting offset, and the nodes of each kind in an output.
\<close>

definition allLinks :: "Vsi list \<Rightarrow> VsiPeerInfo list" where
  "allLinks vs = concat (map peersOf vs)"

fun firstLinks :: "string js set \<Rightarrow> VsiPeerInfo list \<Rightarrow> VsiPeerInfo list" where
  "firstLinks seen [] = []"
| "firstLinks seen (p # ps) =
     (if peerAddress p \<in> seen then firstLinks seen ps
      else p # firstLinks (insert (peerAddress p) seen) ps)"

fun placePeers :: "int \<Rightarrow> VsiPeerInfo list \<Rightarrow> GraphNode list" where
  "placePeers x [] = []"
| "placePeers x (p # ps) = mkPeerNode x p # placePeers (x + 200) ps"

definition vsiNodesOf :: "GraphNode list \<Rightarrow> GraphNode list" where
  "vsiNodesOf ns = filter (\<lambda>n. ntype n = vsiNode) ns"

definition peerNodesOf :: "GraphNode list \<Rightarrow> GraphNode list" where
  "peerNodesOf ns = filter (\<lambda>n. ntype n = peerNode) ns"

text \<open>The records of the worked example of the specification; fields it leaves out are absent.\<close>

definition mkPeer :: "int \<Rightarrow> string js \<Rightarrow> string js \<Rightarrow> string js \<Rightarrow> VsiPeerInfo" where
  "mkPeer i addr st nm =
     \<lparr>peer_id = i, peerAddress = addr, pwId = Undefined, pwState = st, peerDeviceName = nm\<rparr>"

definition mkVsi :: "int \<Rightarrow> string js \<Rightarrow> string js \<Rightarrow> VsiPeerInfo list js \<Rightarrow> Vsi" where
  "mkVsi i nm st ps =
     \<lparr>vsi_id = i, vsi_name = nm, vsi_state = st, vsi_type = Undefined, mtu = Undefined, peers = ps\<rparr>"

definition example_records :: "Vsi list" where
  "example_records =
     [mkVsi 1 (Val ''VSI-A'') (Val ''up*'') (Val [mkPeer 10 (Val ''10.0.0.1'') (Val ''up'') Undefined]),
      mkVsi 2 (Val ''VSI-B'') (Val ''down'') (Val [mkPeer 11 (Val ''10.0.0.1'') (Val ''down'') Undefined])]"

text \<open>\<^verbatim>\<open>typeof v === 'string'\<close>: the value is present and a string, as the interface declares.\<close>

fun isString :: "string js \<Rightarrow> bool" where
  "isString (Val s) = True"
| "isString v = False"

text \<open>
  A second data set: two records link to 10.0.0.1 under different device names, one
  link goes elsewhere, and a third record has no \<^verbatim>\<open>peers\<close> field.
\<close>

definition shared_first :: Vsi where
  "shared_first =
     mkVsi 1 (Val ''CORE-SW1'') (Val ''up*'')
       (Val [mkPeer 10 (Val ''10.0.0.1'') (Val ''UP'') (Val ''PE1''),
             mkPeer 11 (Val ''10.0.0.2'') (Val ''down'') Null])"

definition shared_second :: Vsi where
  "shared_second =
     mkVsi 2 (Val ''edge-sw2'') (Val ''down'')
       (Val [mkPeer 12 (Val ''10.0.0.1'') (Val ''up'') (Val ''other'')])"

definition shared_third :: Vsi where
  "shared_third = mkVsi 3 (Val ''lab'') (Val '''') Undefined"

definition shared_records :: "Vsi list" where
  "shared_records = [shared_first, shared_second, shared_third]"

text \<open>
  The node list as a function of the records: for each record its own node, then the
  peer nodes of the links that bring a new address, placed from the running offset.
\<close>

fun graphNodes :: "nat \<Rightarrow> string js set \<Rightarrow> int \<Rightarrow> Vsi list \<Rightarrow> GraphNode list" where
  "graphNodes i seen x [] = []"
| "graphNodes i seen x (v # vs) =
     mkVsiNode i v # placePeers x (firstLinks seen (peersOf v))
       @ graphNodes (Suc i) (seen \<union> peerAddress ` set (peersOf v))
           (x + 200 * int (length (firstLinks seen (peersOf v)))) vs"

text \<open>
  A node with the links taken out of the record it carries; every other part of the
  node, and every other field of the record, stays.
\<close>

definition withoutLinks :: "GraphNode \<Rightarrow> GraphNode" where
  "withoutLinks n =
     n\<lparr>ndata := (case ndata n of VsiData v \<Rightarrow> VsiData (v\<lparr>peers := Undefined\<rparr>) | d \<Rightarrow> d)\<rparr>"

text \<open>
  The second data set again, with another device name on the link of the second
  record, whose address the first record has already brought.
\<close>

definition renamed_second :: Vsi where
  "renamed_second =
     mkVsi 2 (Val ''edge-sw2'') (Val ''down'')
       (Val [mkPeer 12 (Val ''10.0.0.1'') (Val ''up'') (Val ''PE9'')])"

definition renamed_records :: "Vsi list" where
  "renamed_records = [shared_first, renamed_second, shared_third]"

text \<open>A record whose only link has an empty address, and one whose link has none.\<close>

definition empty_address_records :: "Vsi list" where
  "empty_address_records =
     [mkVsi 1 (Val ''VSI-A'') (Val ''up'') (Val [mkPeer 10 (Val '''') (Val ''up'') Undefined])]"

definition missing_address_records :: "Vsi list" where
  "missing_address_records =
     [mkVsi 1 (Val ''VSI-A'') (Val ''up'') (Val [mkPeer 10 Undefined (Val ''up'') Undefined])]"

text \<open>
  The state normalization in the words of the specification: lower case, and one
  trailing marker character, the asterisk, stripped when there is one.
\<close>

definition spec_normalizeState :: "string \<Rightarrow> string" where
  "spec_normalizeState s =
     (let l = toLowerCase s in if l \<noteq> [] \<and> last l = CHR ''*'' then butlast l else l)"



text \<open>
  A record with a link that has no address and a link to the address "undefined", and
  two records whose links both have the empty address.
\<close>

definition clash_records :: "Vsi list" where
  "clash_records =
     [mkVsi 1 (Val ''VSI-A'') (Val ''up'')
        (Val [mkPeer 10 Undefined (Val ''up'') Undefined,
              mkPeer 11 (Val ''undefined'') (Val ''up'') Undefined])]"

definition empty_address_shared :: "Vsi list" where
  "empty_address_shared =
     [mkVsi 1 (Val ''VSI-A'') (Val ''up'') (Val [mkPeer 10 (Val '''') (Val ''up'') Undefined]),
      mkVsi 2 (Val ''VSI-B'') (Val ''up'') (Val [mkPeer 11 (Val '''') (Val ''down'') Undefined])]"

section \<open>Auxiliary facts\<close>

lemmas eval_defs =
  pipeline_def synthesize_def init_synth_def vsiStep_def peerStep_def
  mkVsiNode_def mkPeerNode_def mkEdge_def vsiNodeId_def peerNodeId_def edgeId_def isPeerUp_def
  toLowerCase_def lower_char_def char_of_eq_iff number_toString_def digits.simps
  vsiMatch_def nameMatch_def stateMatch_def vsiYPos_def peerYPos_def
  mkPeer_def mkVsi_def example_records_def shared_records_def shared_first_def shared_second_def
  shared_third_def withoutLinks_def renamed_second_def renamed_records_def clash_records_def
  empty_address_shared_def vsiNodesOf_def peerNodesOf_def allLinks_def

subsection \<open>Strings\<close>

lemma char_eq_code: "c = d \<longleftrightarrow> (of_char c :: nat) = of_char d"
  by (simp only: of_char_eq_iff)

lemma of_char_lower_char:
  "(of_char (lower_char c) :: nat) =
     (if 65 \<le> (of_char c :: nat) \<and> (of_char c :: nat) \<le> 90 then of_char c + 32 else of_char c)"
proof -
  have "take_bit 8 (of_char c + 32 :: nat) = of_char c + 32" if "(of_char c :: nat) \<le> 90"
    using that by (simp add: take_bit_nat_eq_self_iff)
  then show ?thesis
    by (simp add: lower_char_def Let_def)
qed







lemma replace_remove1: "replace s c [] = remove1 c s"
  by (induction s) auto

subsection \<open>The inner loop\<close>

lemma firstLinks_append:
  "firstLinks seen (ps @ qs) = firstLinks seen ps @ firstLinks (seen \<union> peerAddress ` set ps) qs"
  by (induction ps arbitrary: seen) (auto simp: insert_absorb)

lemma placePeers_append:
  "placePeers x (ps @ qs) = placePeers x ps @ placePeers (x + 200 * int (length ps)) qs"
  by (induction ps arbitrary: x) (auto simp: algebra_simps)

lemma peerStep_edges: "newEdges (peerStep v st p) = newEdges st @ [mkEdge v p]"
  by (simp add: peerStep_def split: option.splits)

lemma peerStep_vsiNodes: "vsiNodesOf (newNodes (peerStep v st p)) = vsiNodesOf (newNodes st)"
  by (simp add: peerStep_def vsiNodesOf_def mkPeerNode_def split: option.splits)

lemma peerStep_peerNodes:
  "peerNodesOf (newNodes (peerStep v st p)) =
     peerNodesOf (newNodes st) @ placePeers (peerXPos st) (firstLinks (dom (peerNodeMap st)) [p])"
  by (auto simp: peerStep_def peerNodesOf_def mkPeerNode_def split: option.splits)

lemma peerStep_dom: "dom (peerNodeMap (peerStep v st p)) = insert (peerAddress p) (dom (peerNodeMap st))"
  by (auto simp: peerStep_def split: option.splits)

lemma peerStep_xpos:
  "peerXPos (peerStep v st p) = peerXPos st + 200 * int (length (firstLinks (dom (peerNodeMap st)) [p]))"
  by (auto simp: peerStep_def split: option.splits)

lemma peerLoop_edges: "newEdges (foldl (peerStep v) st ps) = newEdges st @ map (mkEdge v) ps"
  by (induction ps arbitrary: st) (auto simp: peerStep_edges)

lemma peerLoop_vsiNodes: "vsiNodesOf (newNodes (foldl (peerStep v) st ps)) = vsiNodesOf (newNodes st)"
  by (induction ps arbitrary: st) (auto simp: peerStep_vsiNodes)

lemma peerLoop_dom: "dom (peerNodeMap (foldl (peerStep v) st ps)) = dom (peerNodeMap st) \<union> peerAddress ` set ps"
  by (induction ps arbitrary: st) (auto simp: peerStep_dom)

lemma peerLoop_xpos:
  "peerXPos (foldl (peerStep v) st ps) = peerXPos st + 200 * int (length (firstLinks (dom (peerNodeMap st)) ps))"
proof (induction ps arbitrary: st)
  case Nil
  then show ?case by simp
next
  case (Cons p ps)
  show ?case
    using firstLinks_append [of "dom (peerNodeMap st)" "[p]" ps]
    by (simp add: Cons.IH peerStep_xpos peerStep_dom algebra_simps del: firstLinks.simps)
qed

lemma peerLoop_peerNodes:
  "peerNodesOf (newNodes (foldl (peerStep v) st ps)) =
     peerNodesOf (newNodes st) @ placePeers (peerXPos st) (firstLinks (dom (peerNodeMap st)) ps)"
proof (induction ps arbitrary: st)
  case Nil
  then show ?case by simp
next
  case (Cons p ps)
  show ?case
    using firstLinks_append [of "dom (peerNodeMap st)" "[p]" ps]
    by (simp add: Cons.IH peerStep_peerNodes peerStep_xpos peerStep_dom placePeers_append del: firstLinks.simps)
qed

subsection \<open>The outer loop\<close>

lemma vsiStep_edges: "newEdges (vsiStep i st v) = newEdges st @ map (mkEdge v) (peersOf v)"
  by (simp add: vsiStep_def peerLoop_edges del: peersOf.simps)

lemma vsiStep_vsiNodes: "vsiNodesOf (newNodes (vsiStep i st v)) = vsiNodesOf (newNodes st) @ [mkVsiNode i v]"
  by (simp add: vsiStep_def peerLoop_vsiNodes del: peersOf.simps) (simp add: vsiNodesOf_def mkVsiNode_def)

lemma vsiStep_dom: "dom (peerNodeMap (vsiStep i st v)) = dom (peerNodeMap st) \<union> peerAddress ` set (peersOf v)"
  by (simp add: vsiStep_def peerLoop_dom del: peersOf.simps)

lemma vsiStep_xpos:
  "peerXPos (vsiStep i st v) = peerXPos st + 200 * int (length (firstLinks (dom (peerNodeMap st)) (peersOf v)))"
  by (simp add: vsiStep_def peerLoop_xpos del: peersOf.simps)

lemma vsiStep_peerNodes:
  "peerNodesOf (newNodes (vsiStep i st v)) =
     peerNodesOf (newNodes st) @ placePeers (peerXPos st) (firstLinks (dom (peerNodeMap st)) (peersOf v))"
  by (simp add: vsiStep_def peerLoop_peerNodes del: peersOf.simps) (simp add: peerNodesOf_def mkVsiNode_def)

lemma vsiLoop_edges:
  "newEdges (vsiLoop i st vs) = newEdges st @ concat (map (\<lambda>v. map (mkEdge v) (peersOf v)) vs)"
  by (induction vs arbitrary: i st) (simp_all add: vsiStep_edges del: peersOf.simps)

lemma vsiLoop_vsiNodes:
  "vsiNodesOf (newNodes (vsiLoop i st vs)) =
     vsiNodesOf (newNodes st) @ map (\<lambda>(k, v). mkVsiNode k v) (enumerate i vs)"
  by (induction vs arbitrary: i st) (simp_all add: vsiStep_vsiNodes)

lemma vsiLoop_peerNodes:
  "peerNodesOf (newNodes (vsiLoop i st vs)) =
     peerNodesOf (newNodes st) @ placePeers (peerXPos st) (firstLinks (dom (peerNodeMap st)) (allLinks vs))"
proof (induction vs arbitrary: i st)
  case Nil
  then show ?case by (simp add: allLinks_def)
next
  case (Cons v vs)
  have "allLinks (v # vs) = peersOf v @ allLinks vs" by (simp add: allLinks_def)
  then show ?case
    by (simp add: Cons.IH vsiStep_peerNodes vsiStep_dom vsiStep_xpos firstLinks_append
          placePeers_append del: peersOf.simps)
qed

lemma synthesize_edges: "snd (synthesize vs) = concat (map (\<lambda>v. map (mkEdge v) (peersOf v)) vs)"
  by (simp add: synthesize_def Let_def vsiLoop_edges init_synth_def)

lemma synthesize_vsiNodes:
  "vsiNodesOf (fst (synthesize vs)) = map (\<lambda>(k, v). mkVsiNode k v) (enumerate 0 vs)"
  by (simp add: synthesize_def Let_def vsiLoop_vsiNodes) (simp add: init_synth_def vsiNodesOf_def)

lemma synthesize_peerNodes:
  "peerNodesOf (fst (synthesize vs)) = placePeers 100 (firstLinks {} (allLinks vs))"
  by (simp add: synthesize_def Let_def vsiLoop_peerNodes) (simp add: init_synth_def peerNodesOf_def)

lemma firstLinks_addresses: "set (map peerAddress (firstLinks seen ps)) = peerAddress ` set ps - seen"
  by (induction ps arbitrary: seen) auto

lemma firstLinks_distinct: "distinct (map peerAddress (firstLinks seen ps))"
  by (induction ps arbitrary: seen) (auto simp: firstLinks_addresses simp del: set_map)

lemma firstLinks_subseq: "subseq (firstLinks seen ps) ps"
  by (induction ps arbitrary: seen) auto

lemma firstLinks_unseen: "p \<in> set (firstLinks seen ps) \<Longrightarrow> peerAddress p \<notin> seen"
  using firstLinks_addresses [of seen ps] by auto

lemma firstLinks_find:
  "p \<in> set (firstLinks seen ps) \<Longrightarrow> find (\<lambda>q. peerAddress q = peerAddress p) ps = Some p"
proof (induction ps arbitrary: seen)
  case Nil
  then show ?case by simp
next
  case (Cons a ps)
  show ?case
  proof (cases "peerAddress a \<in> seen")
    case True
    with Cons.prems have m: "p \<in> set (firstLinks seen ps)" by simp
    then have "peerAddress p \<notin> seen" by (rule firstLinks_unseen)
    with True have "peerAddress a \<noteq> peerAddress p" by auto
    with Cons.IH [OF m] show ?thesis by simp
  next
    case False
    with Cons.prems consider "p = a" | "p \<in> set (firstLinks (insert (peerAddress a) seen) ps)"
      by auto
    then show ?thesis
    proof cases
      case 1
      then show ?thesis by simp
    next
      case 2
      then have "peerAddress p \<notin> insert (peerAddress a) seen" by (rule firstLinks_unseen)
      then have "peerAddress a \<noteq> peerAddress p" by auto
      with Cons.IH [OF 2] show ?thesis by simp
    qed
  qed
qed

lemma placePeers_data:
  "map ndata (placePeers x ps) = map (\<lambda>p. PeerData (peerAddress p) (peerDeviceName p)) ps"
  by (induction ps arbitrary: x) (auto simp: mkPeerNode_def)

lemma placePeers_ids: "map node_id (placePeers x ps) = map (\<lambda>p. peerNodeId (peerAddress p)) ps"
  by (induction ps arbitrary: x) (auto simp: mkPeerNode_def)

lemma placePeers_length: "length (placePeers x ps) = length ps"
  by (induction ps arbitrary: x) auto

lemma vsi_payloads: "map ndata (vsiNodesOf (fst (synthesize vs))) = map VsiData vs"
proof -
  have "map ndata (map (\<lambda>(k, v). mkVsiNode k v) (enumerate i vs)) = map VsiData vs" for i
    by (induction vs arbitrary: i) (simp_all add: mkVsiNode_def)
  then show ?thesis by (simp add: synthesize_vsiNodes)
qed

subsection \<open>The whole node list\<close>

lemma peerStep_nodes:
  "newNodes (peerStep v st p) =
     newNodes st @ placePeers (peerXPos st) (firstLinks (dom (peerNodeMap st)) [p])"
  by (auto simp: peerStep_def split: option.splits)

lemma peerLoop_nodes:
  "newNodes (foldl (peerStep v) st ps) =
     newNodes st @ placePeers (peerXPos st) (firstLinks (dom (peerNodeMap st)) ps)"
proof (induction ps arbitrary: st)
  case Nil
  then show ?case by simp
next
  case (Cons p ps)
  show ?case
    using firstLinks_append [of "dom (peerNodeMap st)" "[p]" ps]
    by (simp add: Cons.IH peerStep_nodes peerStep_xpos peerStep_dom placePeers_append del: firstLinks.simps)
qed

lemma vsiStep_nodes:
  "newNodes (vsiStep i st v) =
     newNodes st @ mkVsiNode i v # placePeers (peerXPos st) (firstLinks (dom (peerNodeMap st)) (peersOf v))"
  by (simp add: vsiStep_def peerLoop_nodes del: peersOf.simps)

lemma vsiLoop_nodes:
  "newNodes (vsiLoop i st vs) = newNodes st @ graphNodes i (dom (peerNodeMap st)) (peerXPos st) vs"
  by (induction vs arbitrary: i st)
     (simp_all add: vsiStep_nodes vsiStep_dom vsiStep_xpos del: peersOf.simps)

lemma synthesize_nodes: "fst (synthesize vs) = graphNodes 0 {} 100 vs"
  by (simp add: synthesize_def Let_def vsiLoop_nodes) (simp add: init_synth_def)

lemma firstLinks_later:
  assumes "peerAddress p' = peerAddress p" and "peerAddress p \<in> seen \<union> peerAddress ` set xs"
  shows "firstLinks seen (xs @ p' # ys) = firstLinks seen (xs @ p # ys)"
  using assms by (simp add: firstLinks_append insert_absorb)

lemma graphNodes_append:
  "graphNodes i seen x (as @ bs) =
     graphNodes i seen x as
       @ graphNodes (i + length as) (seen \<union> peerAddress ` set (allLinks as))
           (x + 200 * int (length (firstLinks seen (allLinks as)))) bs"
proof (induction as arbitrary: i seen x)
  case Nil
  then show ?case by (simp add: allLinks_def)
next
  case (Cons a as)
  have l: "allLinks (a # as) = peersOf a @ allLinks as" by (simp add: allLinks_def)
  show ?case
    by (simp add: Cons.IH l firstLinks_append Un_assoc image_Un algebra_simps del: peersOf.simps)
qed

lemma withoutLinks_vsi:
  "withoutLinks (mkVsiNode i (v\<lparr>peers := ps\<rparr>)) = withoutLinks (mkVsiNode i v)"
  by (simp add: withoutLinks_def mkVsiNode_def vsiNodeId_def)

lemma mkEdge_peers_update: "mkEdge (v\<lparr>peers := ps\<rparr>) p = mkEdge v p"
  by (simp add: mkEdge_def edgeId_def vsiNodeId_def)

lemma mkEdge_name_update: "mkEdge v (p\<lparr>peerDeviceName := d\<rparr>) = mkEdge v p"
  by (simp add: mkEdge_def edgeId_def isPeerUp_def)

lemma later_name_nodes:
  assumes v: "peers v = Val (xs @ p # ys)"
    and later: "peerAddress p \<in> peerAddress ` set (allLinks as @ xs)"
  shows "map withoutLinks (graphNodes 0 {} 100 (as @ v\<lparr>peers := Val (xs @ p\<lparr>peerDeviceName := d\<rparr> # ys)\<rparr> # bs))
       = map withoutLinks (graphNodes 0 {} 100 (as @ v # bs))"
proof -
  let ?p' = "p\<lparr>peerDeviceName := d\<rparr>"
  let ?v' = "v\<lparr>peers := Val (xs @ ?p' # ys)\<rparr>"
  let ?seen = "{} \<union> peerAddress ` set (allLinks as)"
  have pv: "peersOf v = xs @ p # ys" and pv': "peersOf ?v' = xs @ ?p' # ys"
    using v by simp_all
  have in_seen: "peerAddress p \<in> ?seen \<union> peerAddress ` set xs"
    using later by auto
  have fl: "firstLinks ?seen (peersOf ?v') = firstLinks ?seen (peersOf v)"
    unfolding pv pv' by (rule firstLinks_later [OF _ in_seen]) simp
  have addr: "peerAddress ` set (peersOf ?v') = peerAddress ` set (peersOf v)"
    unfolding pv pv' by simp
  have "map withoutLinks (graphNodes i ?seen x (?v' # bs)) = map withoutLinks (graphNodes i ?seen x (v # bs))"
    for i x
    using fl addr by (simp add: withoutLinks_vsi del: peersOf.simps)
  then show ?thesis
    by (simp only: graphNodes_append map_append)
qed

lemma later_name_edges:
  assumes v: "peers v = Val (xs @ p # ys)"
  shows "snd (synthesize (as @ v\<lparr>peers := Val (xs @ p\<lparr>peerDeviceName := d\<rparr> # ys)\<rparr> # bs))
       = snd (synthesize (as @ v # bs))"
  using v by (simp add: synthesize_edges mkEdge_peers_update mkEdge_name_update)

subsection \<open>The filter callback\<close>


lemma lower_char_star: "lower_char c = CHR ''*'' \<longleftrightarrow> c = CHR ''*''"
  by (simp add: char_eq_code [of _ "CHR ''*''"] of_char_lower_char)

lemma toLowerCase_star: "CHR ''*'' \<in> set (toLowerCase s) \<longleftrightarrow> CHR ''*'' \<in> set s"
proof -
  have "CHR ''*'' \<in> lower_char ` set s \<longleftrightarrow> (\<exists>c \<in> set s. CHR ''*'' = lower_char c)"
    by (rule image_iff)
  also have "\<dots> \<longleftrightarrow> (\<exists>c \<in> set s. c = CHR ''*'')"
    using lower_char_star by (metis (full_types))
  finally show ?thesis
    by (simp add: toLowerCase_def)
qed

lemma remove1_trailing:
  assumes "c \<notin> set (butlast l)"
  shows "remove1 c l = (if l \<noteq> [] \<and> last l = c then butlast l else l)"
proof (cases l rule: rev_cases)
  case Nil
  then show ?thesis by simp
next
  case (snoc xs y)
  with assms have "c \<notin> set xs" by simp
  with snoc show ?thesis by (simp add: remove1_append)
qed

lemma normalize_agree:
  assumes "CHR ''*'' \<notin> set (butlast s)"
  shows "remove1 CHR ''*'' (toLowerCase s) = spec_normalizeState s"
proof -
  have "butlast (toLowerCase s) = toLowerCase (butlast s)"
    by (simp add: toLowerCase_def map_butlast)
  with assms have "CHR ''*'' \<notin> set (butlast (toLowerCase s))"
    by (simp add: toLowerCase_star)
  from remove1_trailing [OF this] show ?thesis
    by (simp add: spec_normalizeState_def Let_def)
qed

lemma isString_iff: "isString x \<longleftrightarrow> (\<exists>s. x = Val s)"
  by (cases x) auto








lemma stateMatch_string:
  "fs \<noteq> [] \<Longrightarrow> vsi_state v = Val s \<Longrightarrow>
     stateMatch fs v = Inr (remove1 CHR ''*'' (toLowerCase s) = toLowerCase fs)"
  by (simp add: stateMatch_def replace_remove1)

subsection \<open>Peer nodes, links and edges\<close>

lemma placePeers_ips: "map (ip \<circ> ndata) (placePeers x ps) = map peerAddress ps"
  by (induction ps arbitrary: x) (auto simp: mkPeerNode_def)

lemma peerNodeId_inject: "(peerNodeId (Val a) = peerNodeId (Val b)) = (a = b)"
  by (simp add: peerNodeId_def)

lemma synthesize_targets:
  "map target (snd (synthesize vs)) = map (\<lambda>p. peerNodeId (peerAddress p)) (allLinks vs)"
  by (induction vs) (simp_all add: synthesize_edges allLinks_def mkEdge_def comp_def del: peersOf.simps)

lemma distinct_string_ids:
  assumes "list_all isString (map peerAddress ps)" and "distinct (map peerAddress ps)"
  shows "distinct (map (\<lambda>p. peerNodeId (peerAddress p)) ps)"
proof -
  have "inj_on peerNodeId (set (map peerAddress ps))"
  proof (rule inj_onI)
    fix a b
    assume a: "a \<in> set (map peerAddress ps)" and b: "b \<in> set (map peerAddress ps)"
      and e: "peerNodeId a = peerNodeId b"
    from a assms(1) have "isString a" by (auto simp: list_all_iff)
    then obtain s where s: "a = Val s" by (cases a) auto
    from b assms(1) have "isString b" by (auto simp: list_all_iff)
    then obtain t where t: "b = Val t" by (cases b) auto
    from e s t show "a = b" by (simp add: peerNodeId_inject)
  qed
  then have "distinct (map peerNodeId (map peerAddress ps))"
    using assms(2) distinct_map [of peerNodeId "map peerAddress ps"] by blast
  then show ?thesis by (simp add: comp_def)
qed

lemma firstLinks_all_strings:
  "list_all isString (map peerAddress ps) \<Longrightarrow> list_all isString (map peerAddress (firstLinks seen ps))"
  by (induction ps arbitrary: seen) auto

lemma placePeers_node:
  "p \<in> set ps \<Longrightarrow> \<exists>n \<in> set (placePeers x ps). ntype n = peerNode \<and> ip (ndata n) = peerAddress p
      \<and> name (ndata n) = peerDeviceName p \<and> node_id n = peerNodeId (peerAddress p)"
  by (induction ps arbitrary: x) (auto simp: mkPeerNode_def)

lemma peerNodesOf_subset: "set (peerNodesOf ns) \<subseteq> set ns"
  by (auto simp: peerNodesOf_def)

lemma allLinks_member: "v \<in> set vs \<Longrightarrow> p \<in> set (peersOf v) \<Longrightarrow> p \<in> set (allLinks vs)"
  by (auto simp: allLinks_def simp del: peersOf.simps)

lemma address_has_first_link:
  assumes "p \<in> set ps"
  shows "\<exists>q \<in> set (firstLinks {} ps). peerAddress q = peerAddress p"
proof -
  from assms have "peerAddress p \<in> set (map peerAddress (firstLinks {} ps))"
    unfolding firstLinks_addresses by simp
  then show ?thesis by auto
qed

lemma allLinks_peers:
  "allLinks vs = concat (map (\<lambda>v. case peers v of Val ps \<Rightarrow> ps | Undefined \<Rightarrow> [] | Null \<Rightarrow> []) vs)"
  by (simp add: allLinks_def) (metis peersOf.simps)

lemma synthesize_edges_peers:
  "snd (synthesize vs) =
     concat (map (\<lambda>v. case peers v of Val ps \<Rightarrow> map (mkEdge v) ps | Undefined \<Rightarrow> [] | Null \<Rightarrow> []) vs)"
proof -
  have "map (mkEdge v) (peersOf v) =
        (case peers v of Val ps \<Rightarrow> map (mkEdge v) ps | Undefined \<Rightarrow> [] | Null \<Rightarrow> [])" for v
    by (simp split: js.splits)
  then show ?thesis by (simp add: synthesize_edges del: peersOf.simps)
qed

lemma peers_member: "v \<in> set vs \<Longrightarrow> peers v = Val ps \<Longrightarrow> p \<in> set ps \<Longrightarrow> p \<in> set (allLinks vs)"
  by (rule allLinks_member [of v vs p]) simp_all

lemma length_concat_peers:
  "length (concat (map (\<lambda>v. case peers v of Val ps \<Rightarrow> map (f v) ps | Undefined \<Rightarrow> [] | Null \<Rightarrow> []) vs))
   = sum_list (map (\<lambda>v. case peers v of Val ps \<Rightarrow> length ps | Undefined \<Rightarrow> 0 | Null \<Rightarrow> 0) vs)"
  by (induction vs) (simp_all split: js.splits)

lemma distinct_map_count:
  "distinct (map f xs) \<Longrightarrow> a \<in> set (map f xs) \<Longrightarrow> length (filter (\<lambda>x. f x = a) xs) = 1"
proof (induction xs)
  case Nil
  then show ?case by simp
next
  case (Cons x xs)
  show ?case
  proof (cases "f x = a")
    case True
    with Cons.prems have "a \<notin> set (map f xs)" by auto
    then have "filter (\<lambda>x. f x = a) xs = []" by (auto simp: filter_empty_conv)
    with True show ?thesis by simp
  next
    case False
    with Cons show ?thesis by auto
  qed
qed

lemma peer_node_count:
  assumes "p \<in> set (allLinks vs)"
  shows "length (filter (\<lambda>n. ntype n = peerNode \<and> ip (ndata n) = peerAddress p) (fst (synthesize vs))) = 1"
proof -
  let ?P = "peerNodesOf (fst (synthesize vs))"
  have ips: "map (ip \<circ> ndata) ?P = map peerAddress (firstLinks {} (allLinks vs))"
    by (simp add: synthesize_peerNodes placePeers_ips)
  have d: "distinct (map (ip \<circ> ndata) ?P)"
    unfolding ips by (rule firstLinks_distinct)
  have "set (map (ip \<circ> ndata) ?P) = set (map peerAddress (allLinks vs))"
    unfolding ips using firstLinks_addresses [of "{}" "allLinks vs"] by simp
  with assms have m: "peerAddress p \<in> set (map (ip \<circ> ndata) ?P)" by simp
  have "filter (\<lambda>n. ntype n = peerNode \<and> ip (ndata n) = peerAddress p) (fst (synthesize vs))
        = filter (\<lambda>n. (ip \<circ> ndata) n = peerAddress p) ?P"
    by (simp add: peerNodesOf_def conj_commute)
  with distinct_map_count [OF d m] show ?thesis by simp
qed

lemma placePeers_node_id: "n \<in> set (placePeers x ps) \<Longrightarrow> node_id n = peerNodeId (ip (ndata n))"
  by (induction ps arbitrary: x) (auto simp: mkPeerNode_def)

lemma peer_node_ids:
  "n \<in> set (peerNodesOf (fst (synthesize vs))) \<Longrightarrow> node_id n = peerNodeId (ip (ndata n))"
  unfolding synthesize_peerNodes by (rule placePeers_node_id)

section \<open>Graph synthesis: nodes and edges\<close>

text \<open>
  C2. The nodes of kind vsi of the output are as many as the records handed to the
  synthesis, one per record and in their order: the i-th has the id "vsi-" followed by
  the id of the i-th record, and carries that record as payload.
\<close>

theorem vsi_node_per_record:
  "length (vsiNodesOf (fst (synthesize vs))) = length vs
   \<and> map node_id (vsiNodesOf (fst (synthesize vs))) =
       map (\<lambda>v. ''vsi-'' @ number_toString (vsi_id v)) vs
   \<and> map ndata (vsiNodesOf (fst (synthesize vs))) = map VsiData vs"
proof -
  have "map node_id (map (\<lambda>(k, v). mkVsiNode k v) (enumerate i vs)) = map vsiNodeId vs" for i
    by (induction vs arbitrary: i) (simp_all add: mkVsiNode_def)
  moreover have "map ndata (map (\<lambda>(k, v). mkVsiNode k v) (enumerate i vs)) = map VsiData vs" for i
    by (induction vs arbitrary: i) (simp_all add: mkVsiNode_def)
  ultimately show ?thesis
    by (simp add: synthesize_vsiNodes vsiNodeId_def)
qed



text \<open>
  C3. The worked example: two records whose only links share the address 10.0.0.1, no
  filter. The effect yields three nodes, vsi-1, peer-10.0.0.1 and vsi-2 in the order of
  creation, and two edges to the one peer node, the first up and the second not.
\<close>

theorem example_graph:
  "map_sum id (\<lambda>(ns, es). (map node_id ns, map (\<lambda>e. (source e, target e, animated e)) es))
     (pipeline example_records [] [])
   = Inr ([''vsi-1'', ''peer-10.0.0.1'', ''vsi-2''],
          [(''vsi-1'', ''peer-10.0.0.1'', True), (''vsi-2'', ''peer-10.0.0.1'', False)])"
  by (simp add: eval_defs)

text \<open>
  C1, as stated, fails in its last part. A link without an address and a link whose
  address is the string "undefined" carry different addresses and get a peer node each,
  and both nodes have the id "peer-undefined".
\<close>

theorem undefined_address_shares_id:
  "map (ip \<circ> ndata) (peerNodesOf (fst (synthesize clash_records))) = [Undefined, Val ''undefined'']
   \<and> map node_id (peerNodesOf (fst (synthesize clash_records))) = [''peer-undefined'', ''peer-undefined'']
   \<and> map target (snd (synthesize clash_records)) = [''peer-undefined'', ''peer-undefined'']
   \<and> \<not> distinct (map node_id (peerNodesOf (fst (synthesize clash_records))))"
  by (simp add: eval_defs clash_records_def)

text \<open>
  C1, amended. The peer nodes of the output carry pairwise different addresses, and
  their addresses are exactly the addresses of the links in the \<^verbatim>\<open>peers\<close> arrays
  of the records: one peer node per address, however many links and records refer to
  it. The id of a peer node is "peer-" followed by its address, and the edge of every
  link targets "peer-" followed by the link's address, so links with one address
  resolve to one id. Two peer nodes whose addresses are strings never share an id, and
  when every address is a string, as the interface declares, no two peer nodes do.
\<close>

theorem peer_node_per_address:
  "distinct (map (ip \<circ> ndata) (peerNodesOf (fst (synthesize vs))))
   \<and> set (map (ip \<circ> ndata) (peerNodesOf (fst (synthesize vs)))) = set (map peerAddress (allLinks vs))
   \<and> allLinks vs =
       concat (map (\<lambda>v. case peers v of Val ps \<Rightarrow> ps | Undefined \<Rightarrow> [] | Null \<Rightarrow> []) vs)
   \<and> map node_id (peerNodesOf (fst (synthesize vs))) =
       map (\<lambda>n. ''peer-'' @ template (ip (ndata n))) (peerNodesOf (fst (synthesize vs)))
   \<and> map target (snd (synthesize vs)) = map (\<lambda>p. ''peer-'' @ template (peerAddress p)) (allLinks vs)
   \<and> (\<forall>n \<in> set (peerNodesOf (fst (synthesize vs))).
        \<forall>m \<in> set (peerNodesOf (fst (synthesize vs))).
          isString (ip (ndata n)) \<and> isString (ip (ndata m)) \<and> node_id n = node_id m \<longrightarrow> n = m)
   \<and> (list_all isString (map peerAddress (allLinks vs)) \<longrightarrow>
        distinct (map node_id (peerNodesOf (fst (synthesize vs)))))"
proof -
  let ?P = "peerNodesOf (fst (synthesize vs))"
  let ?fl = "firstLinks {} (allLinks vs)"
  have ips: "map (ip \<circ> ndata) ?P = map peerAddress ?fl"
    by (simp add: synthesize_peerNodes placePeers_ips)
  have ids: "map node_id ?P = map (\<lambda>p. peerNodeId (peerAddress p)) ?fl"
    by (simp add: synthesize_peerNodes placePeers_ids)
  have 1: "distinct (map (ip \<circ> ndata) ?P)"
    unfolding ips by (rule firstLinks_distinct)
  have 2: "set (map (ip \<circ> ndata) ?P) = set (map peerAddress (allLinks vs))"
    unfolding ips using firstLinks_addresses [of "{}" "allLinks vs"] by simp
  have 3: "map node_id ?P = map (\<lambda>n. ''peer-'' @ template (ip (ndata n))) ?P"
    by (rule map_cong [OF refl]) (simp add: peer_node_ids peerNodeId_def)
  have 4: "map target (snd (synthesize vs)) = map (\<lambda>p. ''peer-'' @ template (peerAddress p)) (allLinks vs)"
    using synthesize_targets [of vs] by (simp add: peerNodeId_def)
  have 5: "n = m"
    if n: "n \<in> set ?P" and m: "m \<in> set ?P"
      and h: "isString (ip (ndata n)) \<and> isString (ip (ndata m)) \<and> node_id n = node_id m" for n m
  proof -
    from h obtain a b where a: "ip (ndata n) = Val a" and b: "ip (ndata m) = Val b"
      by (auto simp: isString_iff)
    from h have "peerNodeId (ip (ndata n)) = peerNodeId (ip (ndata m))"
      by (simp add: peer_node_ids [OF n] peer_node_ids [OF m])
    with a b have e: "(ip \<circ> ndata) n = (ip \<circ> ndata) m"
      by (simp add: peerNodeId_inject)
    from 1 have i: "inj_on (ip \<circ> ndata) (set ?P)"
      by (simp only: distinct_map)
    show ?thesis by (rule inj_onD [OF i e n m])
  qed
  have 6: "distinct (map node_id ?P)"
    if "list_all isString (map peerAddress (allLinks vs))"
    unfolding ids
    by (rule distinct_string_ids [OF firstLinks_all_strings [OF that] firstLinks_distinct])
  from 1 2 allLinks_peers [of vs] 3 4 5 6 show ?thesis by blast
qed

theorem peer_node_per_address_witness:
  "list_all isString (map peerAddress (allLinks shared_records))
   \<and> map (ip \<circ> ndata) (peerNodesOf (fst (synthesize shared_records))) = [Val ''10.0.0.1'', Val ''10.0.0.2'']
   \<and> map node_id (peerNodesOf (fst (synthesize shared_records))) = [''peer-10.0.0.1'', ''peer-10.0.0.2'']
   \<and> map target (snd (synthesize shared_records)) = [''peer-10.0.0.1'', ''peer-10.0.0.2'', ''peer-10.0.0.1'']
   \<and> distinct (map node_id (peerNodesOf (fst (synthesize shared_records))))"
proof -
  have h: "list_all isString (map peerAddress (allLinks shared_records))"
    by (simp add: eval_defs)
  have i: "map (ip \<circ> ndata) (peerNodesOf (fst (synthesize shared_records))) = [Val ''10.0.0.1'', Val ''10.0.0.2'']"
    by (simp add: eval_defs)
  have n: "map node_id (peerNodesOf (fst (synthesize shared_records))) = [''peer-10.0.0.1'', ''peer-10.0.0.2'']"
    by (simp add: eval_defs)
  have t: "map target (snd (synthesize shared_records)) = [''peer-10.0.0.1'', ''peer-10.0.0.2'', ''peer-10.0.0.1'']"
    by (simp add: eval_defs)
  from peer_node_per_address [of shared_records] h i n t show ?thesis by blast
qed

text \<open>
  C10, as stated, fails in its last part. The two data sets differ only in the device
  name of a link whose address an earlier link carries; the peer nodes are the same,
  but the node lists are not, since the node of the second record carries the record,
  links included, as its payload.
\<close>

theorem later_name_in_record_payload:
  "map peerAddress (allLinks renamed_records) = map peerAddress (allLinks shared_records)
   \<and> map peerDeviceName (allLinks renamed_records) = [Val ''PE1'', Null, Val ''PE9'']
   \<and> map peerDeviceName (allLinks shared_records) = [Val ''PE1'', Null, Val ''other'']
   \<and> peerNodesOf (fst (synthesize renamed_records)) = peerNodesOf (fst (synthesize shared_records))
   \<and> map ndata (vsiNodesOf (fst (synthesize renamed_records)))
       = [VsiData shared_first, VsiData renamed_second, VsiData shared_third]
   \<and> map ndata (vsiNodesOf (fst (synthesize shared_records)))
       = [VsiData shared_first, VsiData shared_second, VsiData shared_third]
   \<and> renamed_second \<noteq> shared_second
   \<and> fst (synthesize renamed_records) \<noteq> fst (synthesize shared_records)"
proof -
  have d: "renamed_second \<noteq> shared_second"
    by (simp add: renamed_second_def shared_second_def mkVsi_def mkPeer_def)
  have r: "map ndata (vsiNodesOf (fst (synthesize renamed_records)))
       = [VsiData shared_first, VsiData renamed_second, VsiData shared_third]"
    using vsi_payloads [of renamed_records] by (simp add: renamed_records_def)
  have s: "map ndata (vsiNodesOf (fst (synthesize shared_records)))
       = [VsiData shared_first, VsiData shared_second, VsiData shared_third]"
    using vsi_payloads [of shared_records] by (simp add: shared_records_def)
  from d r s have "fst (synthesize renamed_records) \<noteq> fst (synthesize shared_records)"
    by auto
  moreover have "peerNodesOf (fst (synthesize renamed_records)) = peerNodesOf (fst (synthesize shared_records))"
    by (simp add: synthesize_peerNodes eval_defs)
  moreover have "map peerAddress (allLinks renamed_records) = map peerAddress (allLinks shared_records)"
    "map peerDeviceName (allLinks renamed_records) = [Val ''PE1'', Null, Val ''PE9'']"
    "map peerDeviceName (allLinks shared_records) = [Val ''PE1'', Null, Val ''other'']"
    by (simp_all add: eval_defs)
  ultimately show ?thesis using d r s by blast
qed

text \<open>
  C10, amended. The payloads of the peer nodes are, in order, the address and the
  device name of the links that are the first to carry their address: the payload of a
  peer node is that of the first link, in iteration order, with the node's address.
  Giving another device name to a link whose address an earlier link already carries
  leaves every edge as it was, and every node as it was but for the links inside the
  record that the vsi node of that link's record carries as its payload.
\<close>

theorem peer_payload_from_first_link:
  "map ndata (peerNodesOf (fst (synthesize vs))) =
     map (\<lambda>p. PeerData (peerAddress p) (peerDeviceName p)) (firstLinks {} (allLinks vs))
   \<and> (\<forall>n \<in> set (peerNodesOf (fst (synthesize vs))).
        \<exists>p. find (\<lambda>q. peerAddress q = ip (ndata n)) (allLinks vs) = Some p
            \<and> ndata n = PeerData (peerAddress p) (peerDeviceName p))
   \<and> (peers v = Val (xs @ p # ys) \<and> peerAddress p \<in> peerAddress ` set (allLinks as @ xs) \<longrightarrow>
        map withoutLinks
          (fst (synthesize (as @ v\<lparr>peers := Val (xs @ p\<lparr>peerDeviceName := d\<rparr> # ys)\<rparr> # bs)))
          = map withoutLinks (fst (synthesize (as @ v # bs)))
        \<and> snd (synthesize (as @ v\<lparr>peers := Val (xs @ p\<lparr>peerDeviceName := d\<rparr> # ys)\<rparr> # bs))
          = snd (synthesize (as @ v # bs)))"
proof -
  let ?fl = "firstLinks {} (allLinks vs)"
  have 1: "map ndata (peerNodesOf (fst (synthesize vs))) =
     map (\<lambda>p. PeerData (peerAddress p) (peerDeviceName p)) ?fl"
    by (simp add: synthesize_peerNodes placePeers_data)
  have 2: "\<exists>p. find (\<lambda>q. peerAddress q = ip (ndata n)) (allLinks vs) = Some p
            \<and> ndata n = PeerData (peerAddress p) (peerDeviceName p)"
    if n: "n \<in> set (peerNodesOf (fst (synthesize vs)))" for n
  proof -
    from n have "ndata n \<in> set (map ndata (peerNodesOf (fst (synthesize vs))))" by simp
    then obtain p where p: "p \<in> set ?fl" and d: "ndata n = PeerData (peerAddress p) (peerDeviceName p)"
      unfolding 1 by auto
    from firstLinks_find [OF p] d show ?thesis by auto
  qed
  have 3: "map withoutLinks
          (fst (synthesize (as @ v\<lparr>peers := Val (xs @ p\<lparr>peerDeviceName := d\<rparr> # ys)\<rparr> # bs)))
          = map withoutLinks (fst (synthesize (as @ v # bs)))
        \<and> snd (synthesize (as @ v\<lparr>peers := Val (xs @ p\<lparr>peerDeviceName := d\<rparr> # ys)\<rparr> # bs))
          = snd (synthesize (as @ v # bs))"
    if "peers v = Val (xs @ p # ys)" "peerAddress p \<in> peerAddress ` set (allLinks as @ xs)"
    using later_name_nodes [OF that] later_name_edges [OF that(1)]
    by (simp only: synthesize_nodes) 
  from 1 2 3 show ?thesis by blast
qed

theorem peer_payload_from_first_link_witness:
  "peers shared_second = Val ([] @ mkPeer 12 (Val ''10.0.0.1'') (Val ''up'') (Val ''other'') # [])
   \<and> peerAddress (mkPeer 12 (Val ''10.0.0.1'') (Val ''up'') (Val ''other''))
       \<in> peerAddress ` set (allLinks [shared_first] @ [])
   \<and> map ndata (peerNodesOf (fst (synthesize shared_records))) =
       [PeerData (Val ''10.0.0.1'') (Val ''PE1''), PeerData (Val ''10.0.0.2'') Null]
   \<and> map withoutLinks
        (fst (synthesize ([shared_first] @ shared_second\<lparr>peers :=
           Val ([] @ (mkPeer 12 (Val ''10.0.0.1'') (Val ''up'') (Val ''other''))\<lparr>peerDeviceName := Val ''PE9''\<rparr> # [])\<rparr>
           # [shared_third])))
      = map withoutLinks (fst (synthesize ([shared_first] @ shared_second # [shared_third])))"
proof -
  have h1: "peers shared_second = Val ([] @ mkPeer 12 (Val ''10.0.0.1'') (Val ''up'') (Val ''other'') # [])"
    by (simp add: shared_second_def mkVsi_def)
  have h2: "peerAddress (mkPeer 12 (Val ''10.0.0.1'') (Val ''up'') (Val ''other''))
       \<in> peerAddress ` set (allLinks [shared_first] @ [])"
    by (simp add: shared_first_def mkVsi_def mkPeer_def allLinks_def)
  have c: "map ndata (peerNodesOf (fst (synthesize shared_records))) =
       [PeerData (Val ''10.0.0.1'') (Val ''PE1''), PeerData (Val ''10.0.0.2'') Null]"
    by (simp add: eval_defs)
  from peer_payload_from_first_link
         [of shared_records shared_second "[]" "mkPeer 12 (Val ''10.0.0.1'') (Val ''up'') (Val ''other'')"
             "[]" "[shared_first]" "Val ''PE9''" "[shared_third]"] h1 h2 c
  show ?thesis by blast
qed

section \<open>Links without an address\<close>

text \<open>
  C4, as stated, fails. A link whose address is the empty string is not skipped: its
  record yields the peer node "peer-" and an edge to it. The same holds for a link
  with no address at all, whose node is "peer-undefined".
\<close>

theorem empty_address_link_emitted:
  "map node_id (fst (synthesize empty_address_records)) = [''vsi-1'', ''peer-'']
   \<and> map (\<lambda>e. (edge_id e, source e, target e)) (snd (synthesize empty_address_records))
       = [(''edge-1-10'', ''vsi-1'', ''peer-'')]
   \<and> map node_id (fst (synthesize missing_address_records)) = [''vsi-1'', ''peer-undefined'']
   \<and> map (\<lambda>e. (edge_id e, source e, target e)) (snd (synthesize missing_address_records))
       = [(''edge-1-10'', ''vsi-1'', ''peer-undefined'')]"
  by (simp add: eval_defs empty_address_records_def missing_address_records_def)

text \<open>
  C4, amended. Synthesis has no check on the address. The edges are as many as the
  links in the \<^verbatim>\<open>peers\<close> arrays of the records, and every such link, whatever its
  address, has its edge in the output, targeting "peer-" followed by the address as a
  template renders it (nothing for an empty string, "undefined" or "null" for a missing
  one). The output holds exactly one peer node with the link's address, and that node
  has the targeted id.
\<close>

theorem every_link_emitted:
  "length (snd (synthesize vs)) =
     sum_list (map (\<lambda>v. case peers v of Val ps \<Rightarrow> length ps | Undefined \<Rightarrow> 0 | Null \<Rightarrow> 0) vs)
   \<and> (\<forall>v \<in> set vs. \<forall>ps. peers v = Val ps \<longrightarrow> (\<forall>p \<in> set ps.
        mkEdge v p \<in> set (snd (synthesize vs))
        \<and> target (mkEdge v p) = ''peer-'' @ template (peerAddress p)
        \<and> length (filter (\<lambda>n. ntype n = peerNode \<and> ip (ndata n) = peerAddress p)
              (fst (synthesize vs))) = 1
        \<and> (\<forall>n \<in> set (fst (synthesize vs)).
              ntype n = peerNode \<and> ip (ndata n) = peerAddress p \<longrightarrow>
                node_id n = ''peer-'' @ template (peerAddress p))))"
proof -
  have 1: "length (snd (synthesize vs)) =
     sum_list (map (\<lambda>v. case peers v of Val ps \<Rightarrow> length ps | Undefined \<Rightarrow> 0 | Null \<Rightarrow> 0) vs)"
    unfolding synthesize_edges_peers by (rule length_concat_peers)
  have 2: "mkEdge v p \<in> set (snd (synthesize vs))
        \<and> target (mkEdge v p) = ''peer-'' @ template (peerAddress p)
        \<and> length (filter (\<lambda>n. ntype n = peerNode \<and> ip (ndata n) = peerAddress p)
              (fst (synthesize vs))) = 1
        \<and> (\<forall>n \<in> set (fst (synthesize vs)).
              ntype n = peerNode \<and> ip (ndata n) = peerAddress p \<longrightarrow>
                node_id n = ''peer-'' @ template (peerAddress p))"
    if v: "v \<in> set vs" and ps: "peers v = Val ps" and p: "p \<in> set ps" for v ps p
  proof -
    have a: "mkEdge v p \<in> set (snd (synthesize vs))"
      using v ps p unfolding synthesize_edges_peers by force
    have b: "target (mkEdge v p) = ''peer-'' @ template (peerAddress p)"
      by (simp add: mkEdge_def peerNodeId_def)
    have c: "length (filter (\<lambda>n. ntype n = peerNode \<and> ip (ndata n) = peerAddress p)
              (fst (synthesize vs))) = 1"
      by (rule peer_node_count [OF peers_member [OF v ps p]])
    have d: "node_id n = ''peer-'' @ template (peerAddress p)"
      if "n \<in> set (fst (synthesize vs))" "ntype n = peerNode \<and> ip (ndata n) = peerAddress p" for n
    proof -
      from that have "n \<in> set (peerNodesOf (fst (synthesize vs)))"
        by (simp add: peerNodesOf_def)
      from peer_node_ids [OF this] that(2) show ?thesis by (simp add: peerNodeId_def)
    qed
    from a b c d show ?thesis by blast
  qed
  from 1 2 show ?thesis by blast
qed

theorem every_link_emitted_witness:
  "list_all (\<lambda>v. peers v \<noteq> Undefined \<and> peers v \<noteq> Null) empty_address_shared
   \<and> map peerAddress (allLinks empty_address_shared) = [Val '''', Val '''']
   \<and> map (\<lambda>e. (edge_id e, source e, target e)) (snd (synthesize empty_address_shared))
       = [(''edge-1-10'', ''vsi-1'', ''peer-''), (''edge-2-11'', ''vsi-2'', ''peer-'')]
   \<and> map node_id (fst (synthesize empty_address_shared)) = [''vsi-1'', ''peer-'', ''vsi-2'']
   \<and> length (filter (\<lambda>n. ntype n = peerNode \<and> ip (ndata n) = Val '''')
         (fst (synthesize empty_address_shared))) = 1
   \<and> length (snd (synthesize empty_address_shared)) = 2"
proof -
  let ?v = "mkVsi 2 (Val ''VSI-B'') (Val ''up'') (Val [mkPeer 11 (Val '''') (Val ''down'') Undefined])"
  let ?p = "mkPeer 11 (Val '''') (Val ''down'') Undefined"
  have v: "?v \<in> set empty_address_shared" by (simp add: empty_address_shared_def)
  have ps: "peers ?v = Val [?p]" by (simp add: mkVsi_def)
  have a: "peerAddress ?p = Val ''''" by (simp add: mkPeer_def)
  have s: "sum_list (map (\<lambda>v. case peers v of Val ps \<Rightarrow> length ps | Undefined \<Rightarrow> 0 | Null \<Rightarrow> 0)
             empty_address_shared) = 2"
    by (simp add: empty_address_shared_def mkVsi_def)
  have e: "list_all (\<lambda>v. peers v \<noteq> Undefined \<and> peers v \<noteq> Null) empty_address_shared"
    "map peerAddress (allLinks empty_address_shared) = [Val '''', Val '''']"
    "map (\<lambda>e. (edge_id e, source e, target e)) (snd (synthesize empty_address_shared))
       = [(''edge-1-10'', ''vsi-1'', ''peer-''), (''edge-2-11'', ''vsi-2'', ''peer-'')]"
    "map node_id (fst (synthesize empty_address_shared)) = [''vsi-1'', ''peer-'', ''vsi-2'']"
    by (simp_all add: eval_defs empty_address_shared_def)
  note t = every_link_emitted [of empty_address_shared]
  from t have l: "length (snd (synthesize empty_address_shared)) =
       sum_list (map (\<lambda>v. case peers v of Val ps \<Rightarrow> length ps | Undefined \<Rightarrow> 0 | Null \<Rightarrow> 0)
             empty_address_shared)"
    by (rule conjunct1)
  from bspec [OF conjunct2 [OF t] v] ps
  have c: "length (filter (\<lambda>n. ntype n = peerNode \<and> ip (ndata n) = peerAddress ?p)
         (fst (synthesize empty_address_shared))) = 1"
    by simp
  note l c
  with a s e show ?thesis by simp
qed

section \<open>The filter\<close>

text \<open>
  C5, as stated, fails. The state "*up" has no trailing marker, so normalizing it as
  the specification words it leaves "*up", which is not the filter "up"; the code
  removes the asterisk all the same and the record matches.
\<close>

theorem leading_marker_matches:
  "stateMatch ''up'' (mkVsi 1 (Val ''VSI-A'') (Val ''*up'') Undefined) = Inr True
   \<and> spec_normalizeState ''*up'' = ''*up''
   \<and> toLowerCase ''up'' = ''up''
   \<and> spec_normalizeState ''*up'' \<noteq> toLowerCase ''up''"
  by (simp add: stateMatch_def mkVsi_def spec_normalizeState_def toLowerCase_def lower_char_def
        char_of_eq_iff)

text \<open>
  C5, amended. For a record whose state is a string and a filter that is not empty, the
  record matches exactly when its state, in lower case and without its first asterisk,
  wherever that stands, equals the filter in lower case. When the state has no asterisk
  before its last character this is the normalization of the specification, and the
  state "up*" matches the filter "up".
\<close>

theorem state_filter_first_marker:
  "(fState \<noteq> [] \<and> vsi_state v = Val s \<longrightarrow>
      stateMatch fState v = Inr (remove1 CHR ''*'' (toLowerCase s) = toLowerCase fState))
   \<and> (CHR ''*'' \<notin> set (butlast s) \<longrightarrow> remove1 CHR ''*'' (toLowerCase s) = spec_normalizeState s)
   \<and> (vsi_state v = Val ''up*'' \<longrightarrow> stateMatch ''up'' v = Inr True)"
proof -
  have "stateMatch ''up'' v = Inr True" if "vsi_state v = Val ''up*''"
    using that by (simp add: stateMatch_def toLowerCase_def lower_char_def char_of_eq_iff)
  then show ?thesis
    using stateMatch_string [of fState v s] normalize_agree [of s] by blast
qed

theorem state_filter_first_marker_witness:
  "''UP'' \<noteq> [] \<and> vsi_state (mkVsi 1 (Val ''VSI-A'') (Val ''Up*'') Undefined) = Val ''Up*''
   \<and> CHR ''*'' \<notin> set (butlast ''Up*'')
   \<and> stateMatch ''UP'' (mkVsi 1 (Val ''VSI-A'') (Val ''Up*'') Undefined) = Inr True
   \<and> spec_normalizeState ''Up*'' = ''up''"
proof -
  have h: "vsi_state (mkVsi 1 (Val ''VSI-A'') (Val ''Up*'') Undefined) = Val ''Up*''"
    by (simp add: mkVsi_def)
  have l: "toLowerCase ''Up*'' = ''up*''" "toLowerCase ''UP'' = ''up''"
    by (simp_all add: toLowerCase_def lower_char_def char_of_eq_iff)
  from state_filter_first_marker [of "''UP''" "mkVsi 1 (Val ''VSI-A'') (Val ''Up*'') Undefined" "''Up*''"]
    h l show ?thesis by simp
qed






end
